theory Spec2Isabelle
  imports Complex_Main
begin

section \<open>The two rate limiters of task02.py\<close>

text \<open>
  Both classes read the wall clock with \<open>time.time()\<close>. In the model every clock reading is
  an explicit argument of the operation that reads it, in the order in which the source reads
  it. Timestamps and durations are real numbers (exact arithmetic; the rounding of Python's
  floats is not modelled). User identifiers are strings, as the source annotates them. A
  \<open>deque\<close> is a list with the oldest element first: \<open>popleft\<close> removes the head, \<open>append\<close>
  adds at the end, \<open>q[0]\<close> is the head. A \<open>dict\<close> is a map.

  An operation that may change the object returns the new object beside its result.
\<close>

datatype error = ConstructionError

subsection \<open>SlidingWindowRateLimiter\<close>

record SlidingWindowRateLimiter =
  window_size :: real
  max_requests :: int
  user_messages :: "string \<rightharpoonup> real list"

text \<open>
  \<open>__init__\<close> stores its arguments and an empty dict. It has no \<open>raise\<close>, so the result is
  always \<open>Inr\<close>.
\<close>

definition SlidingWindowRateLimiter_init ::
  "real \<Rightarrow> int \<Rightarrow> error + SlidingWindowRateLimiter" where
  "SlidingWindowRateLimiter_init ws mr =
     Inr \<lparr>window_size = ws, max_requests = mr, user_messages = Map.empty\<rparr>"

text \<open>
  The \<open>while\<close> loop of \<open>_cleanup_window\<close>: pop the head as long as the deque is not empty
  and its head is \<open>\<le> current_time - window_size\<close> (the first argument here).
\<close>

fun popleft_expired :: "real \<Rightarrow> real list \<Rightarrow> real list" where
  "popleft_expired bound [] = []"
| "popleft_expired bound (t # q) = (if t \<le> bound then popleft_expired bound q else t # q)"

definition cleanup_window ::
  "SlidingWindowRateLimiter \<Rightarrow> string \<Rightarrow> real \<Rightarrow> SlidingWindowRateLimiter" where
  "cleanup_window s user_id current_time =
     (case user_messages s user_id of
        None \<Rightarrow> s
      | Some q \<Rightarrow>
          (let q' = popleft_expired (current_time - window_size s) q
           in if q' = [] then s\<lparr>user_messages := (user_messages s)(user_id := None)\<rparr>
              else s\<lparr>user_messages := (user_messages s)(user_id \<mapsto> q')\<rparr>))"

text \<open>\<open>self.user_messages.get(user_id, [])\<close>\<close>

definition get_messages :: "SlidingWindowRateLimiter \<Rightarrow> string \<Rightarrow> real list" where
  "get_messages s user_id = (case user_messages s user_id of None \<Rightarrow> [] | Some q \<Rightarrow> q)"

definition sw_can_send_message ::
  "SlidingWindowRateLimiter \<Rightarrow> string \<Rightarrow> real \<Rightarrow> bool \<times> SlidingWindowRateLimiter" where
  "sw_can_send_message s user_id current_time =
     (let s' = cleanup_window s user_id current_time
      in (int (length (get_messages s' user_id)) < max_requests s', s'))"

text \<open>
  \<open>record_message\<close> reads the clock twice: once inside \<open>can_send_message\<close> (\<open>t_check\<close>) and
  once more for the timestamp it appends (\<open>t_append\<close>).
\<close>

definition sw_record_message ::
  "SlidingWindowRateLimiter \<Rightarrow> string \<Rightarrow> real \<Rightarrow> real \<Rightarrow> bool \<times> SlidingWindowRateLimiter" where
  "sw_record_message s user_id t_check t_append =
     (case sw_can_send_message s user_id t_check of
        (True, s') \<Rightarrow>
          (True, s'\<lparr>user_messages :=
                     (user_messages s')(user_id \<mapsto> get_messages s' user_id @ [t_append])\<rparr>)
      | (False, s') \<Rightarrow> (False, s'))"

definition sw_time_until_next_allowed ::
  "SlidingWindowRateLimiter \<Rightarrow> string \<Rightarrow> real \<Rightarrow> real \<times> SlidingWindowRateLimiter" where
  "sw_time_until_next_allowed s user_id now =
     (case user_messages s user_id of
        None \<Rightarrow> (0, s)
      | Some [] \<Rightarrow> (0, s)
      | Some (t # q) \<Rightarrow> (max 0 (window_size s - (now - t)), s))"

subsection \<open>ThrottlingRateLimiter\<close>

record ThrottlingRateLimiter =
  min_interval :: real
  user_last_message :: "string \<rightharpoonup> real"

definition ThrottlingRateLimiter_init :: "real \<Rightarrow> error + ThrottlingRateLimiter" where
  "ThrottlingRateLimiter_init mi = Inr \<lparr>min_interval = mi, user_last_message = Map.empty\<rparr>"

definition th_can_send_message ::
  "ThrottlingRateLimiter \<Rightarrow> string \<Rightarrow> real \<Rightarrow> bool \<times> ThrottlingRateLimiter" where
  "th_can_send_message s user_id current_time =
     (case user_last_message s user_id of
        None \<Rightarrow> (True, s)
      | Some l \<Rightarrow> (current_time - l \<ge> min_interval s, s))"

definition th_record_message ::
  "ThrottlingRateLimiter \<Rightarrow> string \<Rightarrow> real \<Rightarrow> real \<Rightarrow> bool \<times> ThrottlingRateLimiter" where
  "th_record_message s user_id t_check t_append =
     (case th_can_send_message s user_id t_check of
        (True, s') \<Rightarrow> (True, s'\<lparr>user_last_message := (user_last_message s')(user_id \<mapsto> t_append)\<rparr>)
      | (False, s') \<Rightarrow> (False, s'))"

definition th_time_until_next_allowed ::
  "ThrottlingRateLimiter \<Rightarrow> string \<Rightarrow> real \<Rightarrow> real \<times> ThrottlingRateLimiter" where
  "th_time_until_next_allowed s user_id now =
     (case user_last_message s user_id of
        None \<Rightarrow> (0, s)
      | Some l \<Rightarrow> (max 0 (min_interval s - (now - l)), s))"

subsection \<open>Sequences of calls\<close>

text \<open>
  Consecutive \<open>record_message\<close> calls for one user, each with its two clock readings; the
  results are collected in call order.
\<close>

fun sw_record_all ::
  "SlidingWindowRateLimiter \<Rightarrow> string \<Rightarrow> (real \<times> real) list \<Rightarrow> bool list \<times> SlidingWindowRateLimiter" where
  "sw_record_all s user_id [] = ([], s)"
| "sw_record_all s user_id ((c, a) # ts) =
     (case sw_record_message s user_id c a of
        (ok, s') \<Rightarrow> (case sw_record_all s' user_id ts of (oks, s'') \<Rightarrow> (ok # oks, s'')))"

fun th_record_all ::
  "ThrottlingRateLimiter \<Rightarrow> string \<Rightarrow> (real \<times> real) list \<Rightarrow> bool list \<times> ThrottlingRateLimiter" where
  "th_record_all s user_id [] = ([], s)"
| "th_record_all s user_id ((c, a) # ts) =
     (case th_record_message s user_id c a of
        (ok, s') \<Rightarrow> (case th_record_all s' user_id ts of (oks, s'') \<Rightarrow> (ok # oks, s'')))"

text \<open>
  A call of one of the three public methods of the sliding-window limiter, with the clock
  readings it makes.
\<close>

datatype sw_call =
    CanSendMessage string real
  | RecordMessage string real real
  | TimeUntilNextAllowed string real

fun sw_exec :: "SlidingWindowRateLimiter \<Rightarrow> sw_call \<Rightarrow> SlidingWindowRateLimiter" where
  "sw_exec s (CanSendMessage u t) = snd (sw_can_send_message s u t)"
| "sw_exec s (RecordMessage u c a) = snd (sw_record_message s u c a)"
| "sw_exec s (TimeUntilNextAllowed u t) = snd (sw_time_until_next_allowed s u t)"

definition sw_run :: "SlidingWindowRateLimiter \<Rightarrow> sw_call list \<Rightarrow> SlidingWindowRateLimiter" where
  "sw_run s calls = foldl sw_exec s calls"

fun call_readings :: "sw_call \<Rightarrow> real list" where
  "call_readings (CanSendMessage u t) = [t]"
| "call_readings (RecordMessage u c a) = [c, a]"
| "call_readings (TimeUntilNextAllowed u t) = [t]"

definition clock_readings :: "sw_call list \<Rightarrow> real list" where
  "clock_readings calls = concat (map call_readings calls)"

text \<open>The reading with which a call runs \<open>_cleanup_window\<close> for the given user, if it does.\<close>

fun cleanup_reading :: "string \<Rightarrow> sw_call \<Rightarrow> real option" where
  "cleanup_reading uid (CanSendMessage u t) = (if u = uid then Some t else None)"
| "cleanup_reading uid (RecordMessage u c a) = (if u = uid then Some c else None)"
| "cleanup_reading uid (TimeUntilNextAllowed u t) = None"

fun last_cleanup :: "string \<Rightarrow> sw_call list \<Rightarrow> real option" where
  "last_cleanup uid [] = None"
| "last_cleanup uid (c # cs) =
     (case last_cleanup uid cs of Some t \<Rightarrow> Some t | None \<Rightarrow> cleanup_reading uid c)"

section \<open>Basic facts\<close>

lemma cleanup_window_params [simp]:
  "window_size (cleanup_window s u t) = window_size s"
  "max_requests (cleanup_window s u t) = max_requests s"
  by (simp_all add: cleanup_window_def Let_def split: option.splits)

lemma cleanup_window_other [simp]:
  "u' \<noteq> u \<Longrightarrow> user_messages (cleanup_window s u t) u' = user_messages s u'"
  by (simp add: cleanup_window_def Let_def split: option.splits)

lemma get_messages_cleanup:
  "get_messages (cleanup_window s u t) u = popleft_expired (t - window_size s) (get_messages s u)"
  by (simp add: cleanup_window_def get_messages_def Let_def split: option.splits)

lemma popleft_expired_idem [simp]:
  "popleft_expired b (popleft_expired b q) = popleft_expired b q"
  by (induction q) simp_all

lemma cleanup_window_idem [simp]:
  "cleanup_window (cleanup_window s u t) u t = cleanup_window s u t"
  by (simp add: cleanup_window_def Let_def split: option.splits)

lemma sw_record_message_params [simp]:
  "window_size (snd (sw_record_message s u c a)) = window_size s"
  "max_requests (snd (sw_record_message s u c a)) = max_requests s"
  by (simp_all add: sw_record_message_def sw_can_send_message_def Let_def split: bool.splits)

lemma sw_record_message_other:
  "u' \<noteq> u \<Longrightarrow> user_messages (snd (sw_record_message s u c a)) u' = user_messages s u'"
  by (simp add: sw_record_message_def sw_can_send_message_def Let_def split: bool.splits)

lemma sw_record_all_frame:
  "u' \<noteq> u \<Longrightarrow>
     user_messages (snd (sw_record_all s u ts)) u' = user_messages s u'
     \<and> window_size (snd (sw_record_all s u ts)) = window_size s
     \<and> max_requests (snd (sw_record_all s u ts)) = max_requests s"
proof (induction ts arbitrary: s)
  case Nil
  show ?case by simp
next
  case (Cons p ts)
  obtain c a where p: "p = (c, a)" by (cases p)
  obtain ok s1 where r: "sw_record_message s u c a = (ok, s1)" by (cases "sw_record_message s u c a")
  have s1: "user_messages s1 u' = user_messages s u'" "window_size s1 = window_size s"
    "max_requests s1 = max_requests s"
    using sw_record_message_other [OF Cons.prems, of s c a] sw_record_message_params [of s u c a]
    by (simp_all add: r)
  from Cons.IH [OF Cons.prems, of s1] show ?case
    by (cases "sw_record_all s1 u ts") (simp add: p r s1)
qed

lemma th_record_message_frame:
  "u' \<noteq> u \<Longrightarrow> user_last_message (snd (th_record_message s u c a)) u' = user_last_message s u'"
  "min_interval (snd (th_record_message s u c a)) = min_interval s"
  by (simp_all add: th_record_message_def th_can_send_message_def split: option.splits bool.splits)

lemma th_record_all_frame:
  "u' \<noteq> u \<Longrightarrow>
     user_last_message (snd (th_record_all s u ts)) u' = user_last_message s u'
     \<and> min_interval (snd (th_record_all s u ts)) = min_interval s"
proof (induction ts arbitrary: s)
  case Nil
  show ?case by simp
next
  case (Cons p ts)
  obtain c a where p: "p = (c, a)" by (cases p)
  obtain ok s1 where r: "th_record_message s u c a = (ok, s1)" by (cases "th_record_message s u c a")
  have s1: "user_last_message s1 u' = user_last_message s u'" "min_interval s1 = min_interval s"
    using th_record_message_frame(1) [OF Cons.prems, of s c a]
      th_record_message_frame(2) [of s u c a]
    by (simp_all add: r)
  from Cons.IH [OF Cons.prems, of s1] show ?case
    by (cases "th_record_all s1 u ts") (simp add: p r s1)
qed

lemma sw_can_send_message_cong:
  assumes "user_messages s' u = user_messages s u" "window_size s' = window_size s"
    "max_requests s' = max_requests s"
  shows "fst (sw_can_send_message s' u t) = fst (sw_can_send_message s u t)"
    and "user_messages (snd (sw_can_send_message s' u t)) u = user_messages (snd (sw_can_send_message s u t)) u"
  using assms
  by (simp_all add: sw_can_send_message_def Let_def cleanup_window_def get_messages_def split: option.splits)

lemma popleft_expired_keep:
  "M \<noteq> [] \<Longrightarrow> b < hd M \<Longrightarrow> \<exists>L'. popleft_expired b (L @ M) = L' @ M"
proof (induction L)
  case Nil
  then have "popleft_expired b M = M" by (cases M) simp_all
  then show ?case by simp
next
  case (Cons x L)
  show ?case
  proof (cases "x \<le> b")
    case True
    then show ?thesis using Cons by simp
  next
    case False
    then have "popleft_expired b ((x # L) @ M) = (x # L) @ M" by simp
    then show ?thesis by blast
  qed
qed

lemma popleft_expired_length: "length (popleft_expired b q) \<le> length q"
  by (induction q) auto

lemma popleft_expired_fresh: "q = [] \<or> b < hd q \<Longrightarrow> popleft_expired b q = q"
  by (cases q) auto

lemma popleft_expired_shorter:
  "q \<noteq> [] \<Longrightarrow> hd q \<le> b \<Longrightarrow> length (popleft_expired b q) < length q"
  using popleft_expired_length [of b "tl q"] by (cases q) auto

lemma get_messages_upd [simp]:
  "get_messages (s\<lparr>user_messages := (user_messages s)(u \<mapsto> q)\<rparr>) u = q"
  by (simp add: get_messages_def)

lemma sw_record_message_fst:
  "fst (sw_record_message s u c a) \<longleftrightarrow>
     int (length (popleft_expired (c - window_size s) (get_messages s u))) < max_requests s"
  by (simp add: sw_record_message_def sw_can_send_message_def Let_def get_messages_cleanup
      split: bool.splits)

lemma sw_record_message_get:
  "get_messages (snd (sw_record_message s u c a)) u =
     (if fst (sw_record_message s u c a)
      then popleft_expired (c - window_size s) (get_messages s u) @ [a]
      else popleft_expired (c - window_size s) (get_messages s u))"
  by (simp add: sw_record_message_def sw_can_send_message_def Let_def get_messages_cleanup
      split: bool.splits)

lemma sw_record_all_Cons:
  "sw_record_all s u ((c, a) # ts) =
     (fst (sw_record_message s u c a) # fst (sw_record_all (snd (sw_record_message s u c a)) u ts),
      snd (sw_record_all (snd (sw_record_message s u c a)) u ts))"
  by (simp split: prod.splits)

lemma sw_record_all_params:
  "window_size (snd (sw_record_all s u ts)) = window_size s
   \<and> max_requests (snd (sw_record_all s u ts)) = max_requests s"
proof (induction ts arbitrary: s)
  case Nil
  show ?case by simp
next
  case (Cons p ts)
  obtain c a where p: "p = (c, a)" by (cases p)
  show ?case unfolding p sw_record_all_Cons using Cons.IH [of "snd (sw_record_message s u c a)"]
    by simp
qed

lemma sw_record_all_accepted:
  assumes "M \<noteq> []"
    and "\<forall>(c, a) \<in> set ts. c - window_size s < hd M"
    and "get_messages s u = L @ M @ R"
    and "\<forall>ok \<in> set (fst (sw_record_all s u ts)). ok"
  shows "(\<exists>L'. get_messages (snd (sw_record_all s u ts)) u = L' @ M @ R @ map snd ts)
     \<and> (ts \<noteq> [] \<longrightarrow> int (length (get_messages (snd (sw_record_all s u ts)) u)) \<le> max_requests s)"
  using assms(2-4)
proof (induction ts arbitrary: s L R)
  case Nil
  then show ?case by simp
next
  case (Cons p ts)
  obtain c a where p: "p = (c, a)" by (cases p)
  let ?s1 = "snd (sw_record_message s u c a)"
  have ok: "fst (sw_record_message s u c a)"
    using Cons.prems(3) unfolding p sw_record_all_Cons by simp
  have oks: "\<forall>ok \<in> set (fst (sw_record_all ?s1 u ts)). ok"
    using Cons.prems(3) unfolding p sw_record_all_Cons by auto
  have "c - window_size s < hd (M @ R)" using Cons.prems(1) assms(1) by (simp add: p)
  then obtain L1 where "popleft_expired (c - window_size s) (L @ (M @ R)) = L1 @ (M @ R)"
    using popleft_expired_keep [of "M @ R" "c - window_size s" L] assms(1) by auto
  then have g1: "get_messages ?s1 u = L1 @ M @ (R @ [a])"
    using ok Cons.prems(2) by (simp add: sw_record_message_get)
  have len1: "int (length (get_messages ?s1 u)) \<le> max_requests s"
    using ok by (simp add: sw_record_message_get sw_record_message_fst)
  have w: "\<forall>(c, a) \<in> set ts. c - window_size ?s1 < hd M"
    using Cons.prems(1) by simp
  from Cons.IH [OF w g1 oks]
  show ?case unfolding p sw_record_all_Cons using len1 by (cases "ts = []") auto
qed

lemma popleft_expired_subset: "set (popleft_expired b q) \<subseteq> set q"
  by (induction q) auto

lemma popleft_expired_sorted: "sorted q \<Longrightarrow> sorted (popleft_expired b q)"
  by (induction q) auto

lemma popleft_expired_sorted_bound:
  "sorted q \<Longrightarrow> \<forall>t \<in> set (popleft_expired b q). b < t"
  by (induction q) auto

lemma get_messages_cleanup_other:
  "u' \<noteq> u \<Longrightarrow> get_messages (cleanup_window s u t) u' = get_messages s u'"
  by (simp add: get_messages_def)

lemma cleanup_window_no_empty:
  "user_messages s u' \<noteq> Some [] \<Longrightarrow> user_messages (cleanup_window s u t) u' \<noteq> Some []"
  by (cases "u' = u") (auto simp: cleanup_window_def Let_def split: option.splits)

lemma sw_exec_window_size [simp]: "window_size (sw_exec s x) = window_size s"
  by (cases x)
    (simp_all add: sw_can_send_message_def Let_def sw_time_until_next_allowed_def
      split: option.splits list.splits)

lemma sw_exec_no_empty:
  "user_messages s u \<noteq> Some [] \<Longrightarrow> user_messages (sw_exec s x) u \<noteq> Some []"
proof (cases x)
  case (CanSendMessage u' t)
  assume "user_messages s u \<noteq> Some []"
  then show ?thesis
    by (simp add: CanSendMessage sw_can_send_message_def Let_def cleanup_window_no_empty)
next
  case (RecordMessage u' c a)
  assume "user_messages s u \<noteq> Some []"
  then show ?thesis
    by (cases "u = u'")
      (auto simp: RecordMessage sw_record_message_def sw_can_send_message_def Let_def
        cleanup_window_no_empty split: bool.splits)
next
  case (TimeUntilNextAllowed u' t)
  assume "user_messages s u \<noteq> Some []"
  then show ?thesis
    by (simp add: TimeUntilNextAllowed sw_time_until_next_allowed_def
        split: option.splits list.splits)
qed

lemma sw_exec_get_other:
  "cleanup_reading u x = None \<Longrightarrow> get_messages (sw_exec s x) u = get_messages s u"
proof (cases x)
  case (CanSendMessage u' t)
  assume "cleanup_reading u x = None"
  then have "u \<noteq> u'" by (auto simp: CanSendMessage split: if_splits)
  then show ?thesis
    by (simp add: CanSendMessage sw_can_send_message_def Let_def get_messages_cleanup_other)
next
  case (RecordMessage u' c a)
  assume "cleanup_reading u x = None"
  then have "u \<noteq> u'" by (auto simp: RecordMessage split: if_splits)
  then show ?thesis
    using sw_record_message_other [of u u' s c a]
    by (simp add: RecordMessage get_messages_def)
next
  case (TimeUntilNextAllowed u' t)
  then show ?thesis
    by (simp add: sw_time_until_next_allowed_def split: option.splits list.splits)
qed

lemma sw_exec_get_cleanup:
  assumes "cleanup_reading u x = Some c"
  shows "get_messages (sw_exec s x) u = popleft_expired (c - window_size s) (get_messages s u)
     \<or> (\<exists>a. x = RecordMessage u c a
          \<and> get_messages (sw_exec s x) u
              = popleft_expired (c - window_size s) (get_messages s u) @ [a])"
proof (cases x)
  case (CanSendMessage u' t)
  then have "u' = u" "t = c" using assms by (auto split: if_splits)
  then show ?thesis
    by (simp add: CanSendMessage sw_can_send_message_def Let_def get_messages_cleanup)
next
  case (RecordMessage u' c' a)
  then have e: "u' = u" "c' = c" using assms by (auto split: if_splits)
  show ?thesis by (simp add: RecordMessage e sw_record_message_get)
next
  case (TimeUntilNextAllowed u' t)
  then show ?thesis using assms by simp
qed

lemma last_cleanup_snoc:
  "last_cleanup u (calls @ [x]) =
     (case cleanup_reading u x of Some t \<Rightarrow> Some t | None \<Rightarrow> last_cleanup u calls)"
  by (induction calls) (auto split: option.splits)

lemma sw_run_snoc: "sw_run s (calls @ [x]) = sw_exec (sw_run s calls) x"
  by (simp add: sw_run_def)

lemma clock_readings_snoc: "clock_readings (calls @ [x]) = clock_readings calls @ call_readings x"
  by (simp add: clock_readings_def)

lemma sw_run_window_size [simp]: "window_size (sw_run s calls) = window_size s"
  by (induction calls rule: rev_induct) (simp_all add: sw_run_snoc, simp add: sw_run_def)

lemma sw_run_invariant:
  assumes "user_messages s0 = Map.empty" and "sorted (clock_readings calls)"
  shows "sorted (get_messages (sw_run s0 calls) u)
     \<and> user_messages (sw_run s0 calls) u \<noteq> Some []
     \<and> set (get_messages (sw_run s0 calls) u) \<subseteq> set (clock_readings calls)
     \<and> (\<forall>c. last_cleanup u calls = Some c \<longrightarrow>
          (\<forall>t \<in> set (get_messages (sw_run s0 calls) u). c - window_size s0 < t \<or> c \<le> t))"
  using assms(2)
proof (induction calls rule: rev_induct)
  case Nil
  show ?case using assms(1) by (simp add: sw_run_def get_messages_def)
next
  case (snoc x calls)
  let ?s = "sw_run s0 calls"
  let ?q = "get_messages ?s u"
  let ?q' = "get_messages (sw_exec ?s x) u"
  have srt: "sorted (clock_readings calls)" and srtx: "sorted (call_readings x)"
    and le: "\<forall>t \<in> set (clock_readings calls). \<forall>t' \<in> set (call_readings x). t \<le> t'"
    using snoc.prems by (simp_all add: clock_readings_snoc sorted_append)
  note IH = snoc.IH [OF srt]
  have ne: "user_messages (sw_exec ?s x) u \<noteq> Some []"
    using IH by (simp add: sw_exec_no_empty)
  show ?case
  proof (cases "cleanup_reading u x")
    case None
    then have "?q' = ?q" by (rule sw_exec_get_other)
    then show ?thesis using IH ne None
      by (auto simp: sw_run_snoc clock_readings_snoc last_cleanup_snoc)
  next
    case (Some c)
    let ?p = "popleft_expired (c - window_size s0) ?q"
    have p1: "sorted ?p" using IH by (simp add: popleft_expired_sorted)
    have p2: "set ?p \<subseteq> set (clock_readings calls)"
      using IH popleft_expired_subset [of "c - window_size s0" ?q] by blast
    have p3: "\<forall>t \<in> set ?p. c - window_size s0 < t"
      using IH popleft_expired_sorted_bound [of ?q "c - window_size s0"] by blast
    from sw_exec_get_cleanup [OF Some, of ?s]
    consider "?q' = ?p" | a where "x = RecordMessage u c a" "?q' = ?p @ [a]"
      by auto
    then show ?thesis
    proof cases
      case 1
      then show ?thesis using p1 p2 p3 ne Some
        by (auto simp: sw_run_snoc clock_readings_snoc last_cleanup_snoc)
    next
      case 2
      have ca: "c \<le> a" using srtx 2(1) by simp
      have pa: "\<forall>t \<in> set ?p. t \<le> a" using p2 le 2(1) by auto
      have s': "sorted ?q'" using p1 pa by (simp add: 2(2) sorted_append)
      have "a \<in> set (call_readings x)" by (simp add: 2(1))
      then have sub: "set ?q' \<subseteq> set (clock_readings (calls @ [x]))"
        unfolding 2(2) clock_readings_snoc using p2 by auto
      have bnd: "\<forall>t \<in> set ?q'. c - window_size s0 < t \<or> c \<le> t"
        using p3 ca by (auto simp: 2(2))
      show ?thesis using s' sub bnd ne Some
        by (simp add: sw_run_snoc last_cleanup_snoc)
    qed
  qed
qed

lemma popleft_expired_all: "\<forall>t \<in> set q. t \<le> b \<Longrightarrow> popleft_expired b q = []"
  by (induction q) auto

section \<open>The claims\<close>

text \<open>
  Claim C1. Let the limiter have \<open>max_requests = N \<ge> 1\<close> and let \<open>N\<close> consecutive
  \<open>record_message\<close> calls for one user all be accepted, the check reading of every call after
  the first being less than \<open>window_size\<close> after the first stored timestamp. Then the user's
  deque holds exactly the \<open>N\<close> appended timestamps; a further record whose check reading is
  still less than \<open>window_size\<close> after the first timestamp is rejected; and a further record
  whose check reading is \<open>window_size\<close> or more after the first timestamp is accepted and
  appends its timestamp.
\<close>

theorem sw_window_correctness:
  assumes "1 \<le> max_requests s"
    and "int (length ts) = max_requests s"
    and "\<forall>ok \<in> set (fst (sw_record_all s uid ts)). ok"
    and "\<forall>(c, a) \<in> set (tl ts). c - snd (hd ts) < window_size s"
  shows "get_messages (snd (sw_record_all s uid ts)) uid = map snd ts
     \<and> (c' - snd (hd ts) < window_size s \<longrightarrow>
          \<not> fst (sw_record_message (snd (sw_record_all s uid ts)) uid c' a'))
     \<and> (c' - snd (hd ts) \<ge> window_size s \<longrightarrow>
          fst (sw_record_message (snd (sw_record_all s uid ts)) uid c' a')
          \<and> last (get_messages (snd (sw_record_message (snd (sw_record_all s uid ts)) uid c' a')) uid) = a')"
proof -
  from assms(1,2) obtain c a rest where ts: "ts = (c, a) # rest" by (cases ts) auto
  let ?s1 = "snd (sw_record_message s uid c a)"
  let ?s' = "snd (sw_record_all s uid ts)"
  have s': "?s' = snd (sw_record_all ?s1 uid rest)" unfolding ts sw_record_all_Cons by simp
  have ok: "fst (sw_record_message s uid c a)"
    using assms(3) unfolding ts sw_record_all_Cons by simp
  have oks: "\<forall>ok \<in> set (fst (sw_record_all ?s1 uid rest)). ok"
    using assms(3) unfolding ts sw_record_all_Cons by auto
  have g1: "get_messages ?s1 uid = popleft_expired (c - window_size s) (get_messages s uid) @ [a] @ []"
    using ok by (simp add: sw_record_message_get)
  have len1: "int (length (get_messages ?s1 uid)) \<le> max_requests s"
    using ok by (simp add: sw_record_message_get sw_record_message_fst)
  have w: "\<forall>(c2, a2) \<in> set rest. c2 - window_size ?s1 < hd [a]"
    using assms(4) by (auto simp: ts)
  have ne: "[a] \<noteq> []" by simp
  from sw_record_all_accepted [OF ne w g1 oks]
  obtain L' where L': "get_messages ?s' uid = L' @ a # map snd rest"
    and len: "rest \<noteq> [] \<longrightarrow> int (length (get_messages ?s' uid)) \<le> max_requests s"
    by (auto simp: s')
  have "int (length (get_messages ?s' uid)) \<le> max_requests s"
    using len len1 by (cases "rest = []") (simp_all add: s')
  then have "int (length L') + int (length ts) \<le> int (length ts)"
    unfolding L' assms(2) [symmetric] by (simp add: ts)
  then have "L' = []" by simp
  then have g: "get_messages ?s' uid = map snd ts" using L' by (simp add: ts)
  have W: "window_size ?s' = window_size s" and N: "max_requests ?s' = max_requests s"
    using sw_record_all_params [of s uid ts] by simp_all
  have hd: "hd (map snd ts) = snd (hd ts)" "map snd ts \<noteq> []" by (simp_all add: ts)
  have rej: "\<not> fst (sw_record_message ?s' uid c' a')" if "c' - snd (hd ts) < window_size s"
  proof -
    have "popleft_expired (c' - window_size s) (map snd ts) = map snd ts"
      using that hd by (intro popleft_expired_fresh) simp
    then show ?thesis using assms(2) by (simp add: sw_record_message_fst g W N)
  qed
  have acc: "fst (sw_record_message ?s' uid c' a')" if "c' - snd (hd ts) \<ge> window_size s"
  proof -
    have "length (popleft_expired (c' - window_size s) (map snd ts)) < length (map snd ts)"
      using that hd by (intro popleft_expired_shorter) simp_all
    then show ?thesis using assms(2) by (simp add: sw_record_message_fst g W N)
  qed
  have lst: "last (get_messages (snd (sw_record_message ?s' uid c' a')) uid) = a'"
    if "c' - snd (hd ts) \<ge> window_size s"
    using acc [OF that] by (simp add: sw_record_message_get)
  show ?thesis using g rej acc lst by blast
qed


theorem sw_window_correctness_witness:
  "(1::int) \<le> 2 \<and> int (length [(0::real, 0::real), (1, 1)]) = 2
   \<and> fst (sw_record_all \<lparr>window_size = 10, max_requests = 2, user_messages = Map.empty\<rparr> ''1'' [(0, 0), (1, 1)]) = [True, True]
   \<and> (1::real) - 0 < 10
   \<and> get_messages (snd (sw_record_all \<lparr>window_size = 10, max_requests = 2, user_messages = Map.empty\<rparr> ''1'' [(0, 0), (1, 1)])) ''1'' = [0, 1]
   \<and> \<not> fst (sw_record_message (snd (sw_record_all \<lparr>window_size = 10, max_requests = 2, user_messages = Map.empty\<rparr> ''1'' [(0, 0), (1, 1)])) ''1'' 5 5)
   \<and> fst (sw_record_message (snd (sw_record_all \<lparr>window_size = 10, max_requests = 2, user_messages = Map.empty\<rparr> ''1'' [(0, 0), (1, 1)])) ''1'' 10 10)"
proof -
  let ?s = "\<lparr>window_size = 10, max_requests = 2, user_messages = Map.empty\<rparr>"
  let ?ts = "[(0::real, 0::real), (1, 1)]"
  have oks: "fst (sw_record_all ?s ''1'' ?ts) = [True, True]"
    by (simp add: sw_record_message_def sw_can_send_message_def cleanup_window_def
        get_messages_def)
  have h1: "1 \<le> max_requests ?s" by simp
  have h2: "int (length ?ts) = max_requests ?s" by simp
  have h3: "\<forall>ok \<in> set (fst (sw_record_all ?s ''1'' ?ts)). ok" unfolding oks by simp
  have h4: "\<forall>(c, a) \<in> set (tl ?ts). c - snd (hd ?ts) < window_size ?s" by simp
  have r: "(5::real) - snd (hd ?ts) < window_size ?s" by simp
  have a: "(10::real) - snd (hd ?ts) \<ge> window_size ?s" by simp
  show ?thesis
    using sw_window_correctness [OF h1 h2 h3 h4, of 5 5]
      sw_window_correctness [OF h1 h2 h3 h4, of 10 10] oks r a
    by (simp del: sw_record_all.simps)
qed

text \<open>
  Claim C2. A \<open>record_message\<close> call of the throttling limiter is accepted iff the user has
  no recorded timestamp or the check reading minus the recorded timestamp is at least
  \<open>min_interval\<close>. In particular, after an accepted record that stored \<open>a1\<close>, a second
  record whose check reading is exactly \<open>a1 + min_interval\<close> is accepted, and one whose check
  reading is less than \<open>min_interval\<close> after \<open>a1\<close> is rejected.
\<close>

theorem th_record_accept_iff:
  "(fst (th_record_message s uid c a) \<longleftrightarrow>
      (user_last_message s uid = None \<or>
       (\<exists>l. user_last_message s uid = Some l \<and> c - l \<ge> min_interval s)))
   \<and> (fst (th_record_message s uid c1 a1) \<longrightarrow>
        fst (th_record_message (snd (th_record_message s uid c1 a1)) uid (a1 + min_interval s) a2)
        \<and> (\<forall>c2. c2 - a1 < min_interval s \<longrightarrow>
              \<not> fst (th_record_message (snd (th_record_message s uid c1 a1)) uid c2 a2)))"
  by (auto simp: th_record_message_def th_can_send_message_def split: option.splits bool.splits)

theorem th_record_accept_iff_witness:
  "fst (th_record_message \<lparr>min_interval = 10, user_last_message = Map.empty\<rparr> ''1'' 0 0)
   \<and> fst (th_record_message (snd (th_record_message \<lparr>min_interval = 10, user_last_message = Map.empty\<rparr> ''1'' 0 0)) ''1'' (0 + 10) 10)
   \<and> (99/10 - 0 < (10::real) \<and> \<not> fst (th_record_message (snd (th_record_message \<lparr>min_interval = 10, user_last_message = Map.empty\<rparr> ''1'' 0 0)) ''1'' (99/10) (99/10)))"
  using th_record_accept_iff [of "\<lparr>min_interval = 10, user_last_message = Map.empty\<rparr>" "''1''" 0 0 0 0 "99/10"]
  by (simp add: th_record_message_def th_can_send_message_def)

text \<open>
  Claim C3. When \<open>record_message\<close> returns \<open>False\<close>: for the sliding-window limiter the
  object is the one \<open>can_send_message\<close> leaves, that is, the result of the cleanup alone, and
  the user's deque is the old one without its expired head elements (nothing appended); for the
  throttling limiter the object is unchanged.
\<close>

theorem rejected_record_no_mutation:
  "(\<not> fst (sw_record_message s uid c a) \<longrightarrow>
      snd (sw_record_message s uid c a) = snd (sw_can_send_message s uid c)
      \<and> snd (sw_record_message s uid c a) = cleanup_window s uid c
      \<and> get_messages (snd (sw_record_message s uid c a)) uid
          = popleft_expired (c - window_size s) (get_messages s uid))
   \<and> (\<not> fst (th_record_message r uid c a) \<longrightarrow> snd (th_record_message r uid c a) = r)"
  by (auto simp: sw_record_message_def sw_can_send_message_def Let_def get_messages_cleanup
        th_record_message_def th_can_send_message_def split: option.splits bool.splits)

theorem rejected_record_no_mutation_witness:
  "\<not> fst (sw_record_message \<lparr>window_size = 10, max_requests = 1, user_messages = [''1'' \<mapsto> [0]]\<rparr> ''1'' 5 5)
   \<and> snd (sw_record_message \<lparr>window_size = 10, max_requests = 1, user_messages = [''1'' \<mapsto> [0]]\<rparr> ''1'' 5 5)
       = \<lparr>window_size = 10, max_requests = 1, user_messages = [''1'' \<mapsto> [0]]\<rparr>
   \<and> \<not> fst (th_record_message \<lparr>min_interval = 10, user_last_message = [''1'' \<mapsto> 0]\<rparr> ''1'' 5 5)
   \<and> snd (th_record_message \<lparr>min_interval = 10, user_last_message = [''1'' \<mapsto> 0]\<rparr> ''1'' 5 5)
       = \<lparr>min_interval = 10, user_last_message = [''1'' \<mapsto> 0]\<rparr>"
  using rejected_record_no_mutation [of "\<lparr>window_size = 10, max_requests = 1, user_messages = [''1'' \<mapsto> [0]]\<rparr>" "''1''" 5 5
     "\<lparr>min_interval = 10, user_last_message = [''1'' \<mapsto> 0]\<rparr>"]
  by (simp add: sw_record_message_def sw_can_send_message_def get_messages_def cleanup_window_def
       th_record_message_def th_can_send_message_def)

text \<open>
  Claim C4. Start from a freshly constructed sliding-window limiter and perform any sequence of
  \<open>can_send_message\<close>, \<open>record_message\<close> and \<open>time_until_next_allowed\<close> calls whose clock
  readings never decrease. Then for every user: the stored deque is non-decreasing; the user is
  never a key with an empty deque; right after a cleanup with any reading \<open>now\<close> every stored
  timestamp is \<open>> now - window_size\<close>; and, with \<open>c\<close> the reading of the user's last cleanup,
  every stored timestamp is \<open>> c - window_size\<close>. The only timestamps that can miss the last
  bound are those appended at or after \<open>c\<close> in a limiter with \<open>window_size \<le> 0\<close>.
\<close>

theorem sw_invariant:
  assumes "SlidingWindowRateLimiter_init W N = Inr s0"
    and "sorted (clock_readings calls)"
  shows "sorted (get_messages (sw_run s0 calls) u)
     \<and> user_messages (sw_run s0 calls) u \<noteq> Some []
     \<and> (\<forall>t \<in> set (get_messages (cleanup_window (sw_run s0 calls) u now) u). now - W < t)
     \<and> (\<forall>c. last_cleanup u calls = Some c \<longrightarrow>
          (\<forall>t \<in> set (get_messages (sw_run s0 calls) u). c - W < t \<or> (W \<le> 0 \<and> c \<le> t)))"
proof -
  have s0: "user_messages s0 = Map.empty" "window_size s0 = W"
    using assms(1) by (auto simp: SlidingWindowRateLimiter_init_def)
  note inv = sw_run_invariant [OF s0(1) assms(2), of u]
  have a: "\<forall>t \<in> set (get_messages (cleanup_window (sw_run s0 calls) u now) u). now - W < t"
    using inv popleft_expired_sorted_bound [of "get_messages (sw_run s0 calls) u" "now - W"]
    by (simp add: get_messages_cleanup s0(2))
  have b: "c - W < t \<or> (W \<le> 0 \<and> c \<le> t)"
    if "last_cleanup u calls = Some c" "t \<in> set (get_messages (sw_run s0 calls) u)" for c t
  proof -
    have "c - W < t \<or> c \<le> t" using inv that by (auto simp: s0(2))
    then show ?thesis by (cases "W \<le> 0") auto
  qed
  show ?thesis using inv a b by blast
qed

theorem sw_invariant_witness:
  "SlidingWindowRateLimiter_init 10 1
     = Inr \<lparr>window_size = 10, max_requests = 1, user_messages = Map.empty\<rparr>
   \<and> sorted (clock_readings [RecordMessage ''1'' 0 0, CanSendMessage ''1'' 5,
        TimeUntilNextAllowed ''1'' 6, RecordMessage ''1'' 10 11])
   \<and> last_cleanup ''1'' [RecordMessage ''1'' 0 0, CanSendMessage ''1'' 5,
        TimeUntilNextAllowed ''1'' 6, RecordMessage ''1'' 10 11] = Some 10
   \<and> get_messages (sw_run \<lparr>window_size = 10, max_requests = 1, user_messages = Map.empty\<rparr>
        [RecordMessage ''1'' 0 0, CanSendMessage ''1'' 5,
         TimeUntilNextAllowed ''1'' 6, RecordMessage ''1'' 10 11]) ''1'' = [11]
   \<and> ((10::real) - 10 < 11 \<or> ((10::real) \<le> 0 \<and> (10::real) \<le> 11))"
proof -
  let ?s0 = "\<lparr>window_size = 10, max_requests = 1, user_messages = Map.empty\<rparr>"
  let ?calls = "[RecordMessage ''1'' 0 0, CanSendMessage ''1'' 5,
        TimeUntilNextAllowed ''1'' 6, RecordMessage ''1'' 10 11]"
  have h1: "SlidingWindowRateLimiter_init 10 1 = Inr ?s0"
    by (simp add: SlidingWindowRateLimiter_init_def)
  have h2: "sorted (clock_readings ?calls)" by (simp add: clock_readings_def)
  have lc: "last_cleanup ''1'' ?calls = Some 10" by simp
  have g: "get_messages (sw_run ?s0 ?calls) ''1'' = [11]"
    by (simp add: sw_run_def sw_record_message_def sw_can_send_message_def cleanup_window_def
        get_messages_def sw_time_until_next_allowed_def)
  show ?thesis
    using sw_invariant [OF h1 h2, of "''1''" 12] h1 h2 lc g by simp
qed

text \<open>
  Claim C5. \<open>time_until_next_allowed\<close> is never negative. For the sliding-window limiter it is
  0 when the user has no stored timestamp and otherwise
  \<open>max 0 (window_size - (now - oldest))\<close>; for the throttling limiter it is 0 when the user
  was never recorded and otherwise \<open>max 0 (min_interval - (now - last))\<close>.
\<close>

theorem time_until_next_allowed_value:
  "0 \<le> fst (sw_time_until_next_allowed s uid now)
   \<and> fst (sw_time_until_next_allowed s uid now)
       = (if get_messages s uid = [] then 0
          else max 0 (window_size s - (now - hd (get_messages s uid))))
   \<and> 0 \<le> fst (th_time_until_next_allowed r uid now)
   \<and> fst (th_time_until_next_allowed r uid now)
       = (case user_last_message r uid of None \<Rightarrow> 0
          | Some l \<Rightarrow> max 0 (min_interval r - (now - l)))"
  by (auto simp: sw_time_until_next_allowed_def th_time_until_next_allowed_def get_messages_def
      split: option.splits list.splits)

text \<open>
  Claim C6 says that a configuration with \<open>max_requests < 1\<close>, a negative \<open>window_size\<close> or a
  negative \<open>min_interval\<close> is rejected by the constructor. The constructors accept such
  configurations: with \<open>max_requests = 0\<close> the result is a limiter that denies a record.
\<close>

theorem constructors_do_not_validate_counterexample:
  "SlidingWindowRateLimiter_init 10 0
     = Inr \<lparr>window_size = 10, max_requests = 0, user_messages = Map.empty\<rparr>
   \<and> \<not> fst (sw_record_message \<lparr>window_size = 10, max_requests = 0, user_messages = Map.empty\<rparr> ''1'' 0 0)
   \<and> SlidingWindowRateLimiter_init (- 1) 1
     = Inr \<lparr>window_size = - 1, max_requests = 1, user_messages = Map.empty\<rparr>
   \<and> ThrottlingRateLimiter_init (- 1)
     = Inr \<lparr>min_interval = - 1, user_last_message = Map.empty\<rparr>"
  by (simp add: SlidingWindowRateLimiter_init_def ThrottlingRateLimiter_init_def
      sw_record_message_def sw_can_send_message_def cleanup_window_def get_messages_def)

text \<open>
  Claim C6, as the code behaves. Neither constructor validates its arguments: both succeed for
  every configuration and return exactly the given parameters with an empty map. A
  sliding-window limiter with \<open>max_requests < 1\<close> then denies every \<open>can_send_message\<close> and
  \<open>record_message\<close>; one with \<open>window_size \<le> 0\<close> and \<open>max_requests \<ge> 1\<close> accepts every
  record whose check reading is not before the user's stored timestamps; a throttling limiter
  with \<open>min_interval \<le> 0\<close> accepts every record whose check reading is not before the user's
  last recorded timestamp.
\<close>

theorem constructors_accept_any_configuration:
  "SlidingWindowRateLimiter_init W N
     = Inr \<lparr>window_size = W, max_requests = N, user_messages = Map.empty\<rparr>
   \<and> ThrottlingRateLimiter_init M = Inr \<lparr>min_interval = M, user_last_message = Map.empty\<rparr>
   \<and> (max_requests s < 1 \<longrightarrow>
        \<not> fst (sw_can_send_message s u c) \<and> \<not> fst (sw_record_message s u c a))
   \<and> (window_size s \<le> 0 \<and> 1 \<le> max_requests s \<and> (\<forall>t \<in> set (get_messages s u). t \<le> c) \<longrightarrow>
        fst (sw_record_message s u c a))
   \<and> (min_interval r \<le> 0 \<and> (\<forall>l. user_last_message r u = Some l \<longrightarrow> l \<le> c) \<longrightarrow>
        fst (th_record_message r u c a))"
proof -
  have 1: "\<not> fst (sw_can_send_message s u c) \<and> \<not> fst (sw_record_message s u c a)"
    if "max_requests s < 1"
    using that by (simp add: sw_record_message_fst sw_can_send_message_def Let_def)
  have 2: "fst (sw_record_message s u c a)"
    if "window_size s \<le> 0 \<and> 1 \<le> max_requests s \<and> (\<forall>t \<in> set (get_messages s u). t \<le> c)"
  proof -
    have "\<forall>t \<in> set (get_messages s u). t \<le> c - window_size s" using that by auto
    then have "popleft_expired (c - window_size s) (get_messages s u) = []"
      by (rule popleft_expired_all)
    then show ?thesis using that by (simp add: sw_record_message_fst)
  qed
  have 3: "fst (th_record_message r u c a)"
    if "min_interval r \<le> 0 \<and> (\<forall>l. user_last_message r u = Some l \<longrightarrow> l \<le> c)"
    using that
    by (auto simp: th_record_message_def th_can_send_message_def split: option.splits bool.splits)
  show ?thesis using 1 2 3
    by (simp add: SlidingWindowRateLimiter_init_def ThrottlingRateLimiter_init_def)
qed

theorem constructors_accept_any_configuration_witness:
  "max_requests \<lparr>window_size = 10, max_requests = 0, user_messages = Map.empty\<rparr> < 1
   \<and> \<not> fst (sw_record_message \<lparr>window_size = 10, max_requests = 0, user_messages = Map.empty\<rparr> ''1'' 3 3)
   \<and> window_size \<lparr>window_size = - 1, max_requests = 1, user_messages = [''1'' \<mapsto> [2]]\<rparr> \<le> 0
   \<and> get_messages \<lparr>window_size = - 1, max_requests = 1, user_messages = [''1'' \<mapsto> [2]]\<rparr> ''1'' = [2]
   \<and> (2::real) \<le> 3
   \<and> fst (sw_record_message \<lparr>window_size = - 1, max_requests = 1, user_messages = [''1'' \<mapsto> [2]]\<rparr> ''1'' 3 3)
   \<and> min_interval \<lparr>min_interval = - 1, user_last_message = [''1'' \<mapsto> 2]\<rparr> \<le> 0
   \<and> fst (th_record_message \<lparr>min_interval = - 1, user_last_message = [''1'' \<mapsto> 2]\<rparr> ''1'' 3 3)"
  using constructors_accept_any_configuration
    [of 10 0 "- 1" "\<lparr>window_size = 10, max_requests = 0, user_messages = Map.empty\<rparr>" "''1'' " 3 3
      "\<lparr>min_interval = - 1, user_last_message = [''1'' \<mapsto> 2]\<rparr>"]
    constructors_accept_any_configuration
    [of 10 0 "- 1" "\<lparr>window_size = - 1, max_requests = 1, user_messages = [''1'' \<mapsto> [2]]\<rparr>" "''1'' " 3 3
      "\<lparr>min_interval = - 1, user_last_message = [''1'' \<mapsto> 2]\<rparr>"]
  by (simp add: get_messages_def)

text \<open>
  Claim C7. Any sequence of \<open>record_message\<close> calls for user \<open>A\<close> leaves the stored entry of
  another user \<open>B\<close> as it was, and with it the answer of \<open>can_send_message\<close> for \<open>B\<close> at
  any time and the entry of \<open>B\<close> after that call. This holds for both limiters.
\<close>

theorem records_independent_of_other_user:
  assumes "A \<noteq> B"
  shows "user_messages (snd (sw_record_all s A ts)) B = user_messages s B
     \<and> fst (sw_can_send_message (snd (sw_record_all s A ts)) B t) = fst (sw_can_send_message s B t)
     \<and> user_messages (snd (sw_can_send_message (snd (sw_record_all s A ts)) B t)) B
         = user_messages (snd (sw_can_send_message s B t)) B
     \<and> user_last_message (snd (th_record_all r A ts)) B = user_last_message r B
     \<and> th_can_send_message (snd (th_record_all r A ts)) B t
         = (fst (th_can_send_message r B t), snd (th_record_all r A ts))"
proof -
  have f: "B \<noteq> A" using assms by simp
  note sw = sw_record_all_frame [OF f, of s ts]
  note th = th_record_all_frame [OF f, of r ts]
  have 1: "fst (sw_can_send_message (snd (sw_record_all s A ts)) B t) = fst (sw_can_send_message s B t)"
    using sw by (intro sw_can_send_message_cong) simp_all
  have 2: "user_messages (snd (sw_can_send_message (snd (sw_record_all s A ts)) B t)) B
         = user_messages (snd (sw_can_send_message s B t)) B"
    using sw by (intro sw_can_send_message_cong) simp_all
  have 3: "th_can_send_message (snd (th_record_all r A ts)) B t
         = (fst (th_can_send_message r B t), snd (th_record_all r A ts))"
    using th by (simp add: th_can_send_message_def split: option.splits)
  show ?thesis using sw th 1 2 3 by simp
qed

theorem records_independent_of_other_user_witness:
  "''1'' \<noteq> ''2''
   \<and> fst (sw_can_send_message (snd (sw_record_all \<lparr>window_size = 10, max_requests = 1, user_messages = Map.empty\<rparr> ''1'' [(0, 0), (1, 1)])) ''2'' 2)
   \<and> fst (th_can_send_message (snd (th_record_all \<lparr>min_interval = 10, user_last_message = Map.empty\<rparr> ''1'' [(0, 0), (1, 1)])) ''2'' 2)"
proof -
  have h: "''1'' \<noteq> ''2''" by simp
  have a: "fst (sw_can_send_message \<lparr>window_size = 10, max_requests = 1, user_messages = Map.empty\<rparr> ''2'' 2)"
    by (simp add: sw_can_send_message_def cleanup_window_def get_messages_def)
  have b: "fst (th_can_send_message \<lparr>min_interval = 10, user_last_message = Map.empty\<rparr> ''2'' 2)"
    by (simp add: th_can_send_message_def)
  show ?thesis
    using records_independent_of_other_user [OF h,
      of "\<lparr>window_size = 10, max_requests = 1, user_messages = Map.empty\<rparr>" "[(0, 0), (1, 1)]" 2
         "\<lparr>min_interval = 10, user_last_message = Map.empty\<rparr>"] h a b
    by (simp del: sw_record_all.simps th_record_all.simps)
qed

text \<open>
  Claim C8 says that, with no new accepted events, the wait returned by
  \<open>time_until_next_allowed\<close> never increases as the query time advances. In the
  sliding-window limiter a \<open>can_send_message\<close> call in between prunes the expired oldest
  timestamp, and the wait is then computed from the next one: with \<open>window_size = 10\<close>,
  \<open>max_requests = 2\<close> and records at 0 and 5, the wait is 1 at time 9 and, after
  \<open>can_send_message\<close> at time 10 (which answers \<open>True\<close> and records nothing), 5 at time 10.
\<close>

theorem wait_can_grow_after_pruning_counterexample:
  "fst (sw_record_all \<lparr>window_size = 10, max_requests = 2, user_messages = Map.empty\<rparr> ''1''
         [(0, 0), (5, 5)]) = [True, True]
   \<and> fst (sw_time_until_next_allowed
         (snd (sw_record_all \<lparr>window_size = 10, max_requests = 2, user_messages = Map.empty\<rparr> ''1''
            [(0, 0), (5, 5)])) ''1'' 9) = 1
   \<and> fst (sw_can_send_message
         (snd (sw_record_all \<lparr>window_size = 10, max_requests = 2, user_messages = Map.empty\<rparr> ''1''
            [(0, 0), (5, 5)])) ''1'' 10) = True
   \<and> fst (sw_time_until_next_allowed
         (snd (sw_can_send_message
           (snd (sw_record_all \<lparr>window_size = 10, max_requests = 2, user_messages = Map.empty\<rparr> ''1''
              [(0, 0), (5, 5)])) ''1'' 10)) ''1'' 10) = 5"
  by (simp add: sw_record_message_def sw_can_send_message_def cleanup_window_def get_messages_def
      sw_time_until_next_allowed_def)

text \<open>
  Claim C8, as the code behaves. On an unchanged object the wait is a non-increasing function of
  the query time in both limiters, and it is exactly 0 when the user has no stored timestamp and
  at every query time that is at least \<open>window_size\<close> after the oldest stored timestamp
  (sliding window) or at least \<open>min_interval\<close> after the last recorded one (throttling). In
  the throttling limiter \<open>can_send_message\<close> and a rejected \<open>record_message\<close> leave the
  object unchanged, so there only an accepted record can raise the wait.
\<close>

theorem wait_non_increasing_on_fixed_state:
  "(t1 \<le> t2 \<and> user_messages s' u = user_messages s u \<and> window_size s' = window_size s \<longrightarrow>
      fst (sw_time_until_next_allowed s' u t2) \<le> fst (sw_time_until_next_allowed s u t1))
   \<and> (get_messages s u = [] \<or> hd (get_messages s u) + window_size s \<le> t \<longrightarrow>
        fst (sw_time_until_next_allowed s u t) = 0)
   \<and> (t1 \<le> t2 \<and> user_last_message r' u = user_last_message r u \<and> min_interval r' = min_interval r \<longrightarrow>
        fst (th_time_until_next_allowed r' u t2) \<le> fst (th_time_until_next_allowed r u t1))
   \<and> (user_last_message r u = None \<or> (\<exists>l. user_last_message r u = Some l \<and> l + min_interval r \<le> t) \<longrightarrow>
        fst (th_time_until_next_allowed r u t) = 0)
   \<and> snd (th_can_send_message r u' t') = r
   \<and> (\<not> fst (th_record_message r u' t' a') \<longrightarrow> snd (th_record_message r u' t' a') = r)"
proof -
  have 1: "fst (sw_time_until_next_allowed s' u t2) \<le> fst (sw_time_until_next_allowed s u t1)"
    if "t1 \<le> t2 \<and> user_messages s' u = user_messages s u \<and> window_size s' = window_size s"
    using that by (auto simp: sw_time_until_next_allowed_def split: option.splits list.splits)
  have 2: "fst (sw_time_until_next_allowed s u t) = 0"
    if "get_messages s u = [] \<or> hd (get_messages s u) + window_size s \<le> t"
    using that
    by (auto simp: sw_time_until_next_allowed_def get_messages_def split: option.splits list.splits)
  have 3: "fst (th_time_until_next_allowed r' u t2) \<le> fst (th_time_until_next_allowed r u t1)"
    if "t1 \<le> t2 \<and> user_last_message r' u = user_last_message r u \<and> min_interval r' = min_interval r"
    using that by (auto simp: th_time_until_next_allowed_def split: option.splits)
  have 4: "fst (th_time_until_next_allowed r u t) = 0"
    if "user_last_message r u = None \<or> (\<exists>l. user_last_message r u = Some l \<and> l + min_interval r \<le> t)"
    using that by (auto simp: th_time_until_next_allowed_def split: option.splits)
  have 5: "snd (th_can_send_message r u' t') = r"
    by (simp add: th_can_send_message_def split: option.splits)
  have 6: "snd (th_record_message r u' t' a') = r" if "\<not> fst (th_record_message r u' t' a')"
    using that 5 by (auto simp: th_record_message_def split: prod.splits bool.splits)
  show ?thesis using 1 2 3 4 5 6 by blast
qed

theorem wait_non_increasing_on_fixed_state_witness:
  "(5::real) \<le> 9
   \<and> fst (sw_time_until_next_allowed \<lparr>window_size = 10, max_requests = 2, user_messages = [''1'' \<mapsto> [0, 5]]\<rparr> ''1'' 9)
       \<le> fst (sw_time_until_next_allowed \<lparr>window_size = 10, max_requests = 2, user_messages = [''1'' \<mapsto> [0, 5]]\<rparr> ''1'' 5)
   \<and> fst (sw_time_until_next_allowed \<lparr>window_size = 10, max_requests = 2, user_messages = [''1'' \<mapsto> [0, 5]]\<rparr> ''1'' 5) = 5
   \<and> fst (sw_time_until_next_allowed \<lparr>window_size = 10, max_requests = 2, user_messages = [''1'' \<mapsto> [0, 5]]\<rparr> ''1'' 9) = 1
   \<and> hd (get_messages \<lparr>window_size = 10, max_requests = 2, user_messages = [''1'' \<mapsto> [0, 5]]\<rparr> ''1'') + 10 \<le> 10
   \<and> fst (sw_time_until_next_allowed \<lparr>window_size = 10, max_requests = 2, user_messages = [''1'' \<mapsto> [0, 5]]\<rparr> ''1'' 10) = 0
   \<and> fst (th_time_until_next_allowed \<lparr>min_interval = 10, user_last_message = [''1'' \<mapsto> 0]\<rparr> ''1'' 9) = 1
   \<and> fst (th_time_until_next_allowed \<lparr>min_interval = 10, user_last_message = [''1'' \<mapsto> 0]\<rparr> ''1'' 10) = 0
   \<and> \<not> fst (th_record_message \<lparr>min_interval = 10, user_last_message = [''1'' \<mapsto> 0]\<rparr> ''1'' 9 9)
   \<and> snd (th_record_message \<lparr>min_interval = 10, user_last_message = [''1'' \<mapsto> 0]\<rparr> ''1'' 9 9)
       = \<lparr>min_interval = 10, user_last_message = [''1'' \<mapsto> 0]\<rparr>"
proof -
  let ?s = "\<lparr>window_size = 10, max_requests = 2, user_messages = [''1'' \<mapsto> [0, 5]]\<rparr>"
  let ?r = "\<lparr>min_interval = 10, user_last_message = [''1'' \<mapsto> 0]\<rparr>"
  have v: "fst (sw_time_until_next_allowed ?s ''1'' 5) = 5"
    "fst (sw_time_until_next_allowed ?s ''1'' 9) = 1"
    "fst (th_time_until_next_allowed ?r ''1'' 9) = 1"
    "\<not> fst (th_record_message ?r ''1'' 9 9)"
    by (simp_all add: sw_time_until_next_allowed_def th_time_until_next_allowed_def
        th_record_message_def th_can_send_message_def)
  have g: "hd (get_messages ?s ''1'') + 10 \<le> 10" by (simp add: get_messages_def)
  show ?thesis
    using wait_non_increasing_on_fixed_state [of 5 9 ?s "''1''" ?s 10 ?r ?r "''1''" 9 9] v g
    by simp
qed

text \<open>
  Claim C9. Calling \<open>can_send_message\<close> again with the same clock reading, with no record in
  between, returns the same boolean and the same object as the first call, however often it is
  repeated; the throttling limiter's \<open>can_send_message\<close> never changes the object at all.
\<close>

theorem can_send_message_idempotent:
  "sw_can_send_message (snd (sw_can_send_message s uid t)) uid t = sw_can_send_message s uid t
   \<and> ((\<lambda>p. sw_can_send_message (snd p) uid t) ^^ n) (sw_can_send_message s uid t)
        = sw_can_send_message s uid t
   \<and> snd (th_can_send_message r uid t) = r
   \<and> ((\<lambda>p. th_can_send_message (snd p) uid t) ^^ n) (th_can_send_message r uid t)
        = th_can_send_message r uid t"
proof -
  have sw: "sw_can_send_message (snd (sw_can_send_message s uid t)) uid t = sw_can_send_message s uid t"
    by (simp add: sw_can_send_message_def Let_def)
  have th: "snd (th_can_send_message r uid t) = r"
    by (simp add: th_can_send_message_def split: option.splits)
  have swn: "((\<lambda>p. sw_can_send_message (snd p) uid t) ^^ n) (sw_can_send_message s uid t)
        = sw_can_send_message s uid t"
    by (induction n) (simp_all add: sw)
  have thn: "((\<lambda>p. th_can_send_message (snd p) uid t) ^^ n) (th_can_send_message r uid t)
        = th_can_send_message r uid t"
    by (induction n) (simp_all add: th)
  show ?thesis using sw th swn thn by simp
qed

text \<open>
  Claim C10. \<open>time_until_next_allowed\<close> returns the object unchanged in both limiters. In the
  sliding-window limiter a user whose stored timestamps have all expired, but were not yet
  pruned, gets 0 and keeps the stale entry in the map.
\<close>

theorem time_until_next_allowed_pure:
  "snd (sw_time_until_next_allowed s uid now) = s
   \<and> snd (th_time_until_next_allowed r uid now) = r
   \<and> (user_messages s uid = Some q \<and> q \<noteq> [] \<and> (\<forall>t \<in> set q. t \<le> now - window_size s) \<longrightarrow>
        fst (sw_time_until_next_allowed s uid now) = 0
        \<and> user_messages (snd (sw_time_until_next_allowed s uid now)) uid = Some q)"
  by (auto simp: sw_time_until_next_allowed_def th_time_until_next_allowed_def
      split: option.splits list.splits)

theorem time_until_next_allowed_pure_witness:
  "user_messages \<lparr>window_size = 10, max_requests = 1, user_messages = [''1'' \<mapsto> [0, 1]]\<rparr> ''1'' = Some [0, 1]
   \<and> [0, 1::real] \<noteq> [] \<and> (0::real) \<le> 20 - 10 \<and> (1::real) \<le> 20 - 10
   \<and> fst (sw_time_until_next_allowed \<lparr>window_size = 10, max_requests = 1, user_messages = [''1'' \<mapsto> [0, 1]]\<rparr> ''1'' 20) = 0
   \<and> user_messages (snd (sw_time_until_next_allowed \<lparr>window_size = 10, max_requests = 1, user_messages = [''1'' \<mapsto> [0, 1]]\<rparr> ''1'' 20)) ''1'' = Some [0, 1]"
  using time_until_next_allowed_pure [of "\<lparr>window_size = 10, max_requests = 1, user_messages = [''1'' \<mapsto> [0, 1]]\<rparr>" "''1''" 20 _ "[0,1]"]
  by simp

end
